theory Spec2Isabelle
  imports Main
begin

section \<open>Data model of the executor (service.go)\<close>

text \<open>
  Go values are modelled as follows. A \<^verbatim>\<open>time.Duration\<close> and a \<^verbatim>\<open>time.Time\<close> are
  integers (nanoseconds). An \<^verbatim>\<open>error\<close> is its message, and the nil error is \<open>None\<close>.
  A Go map that may be nil is an optional HOL map: \<open>None\<close> is the nil map, which the
  source tests for before it stores. A pointer that may be nil is an \<open>option\<close>. A panic
  is a value of type \<open>panic\<close> on the left of a sum.
\<close>

type_synonym duration = int
type_synonym time = int
type_synonym error = string
type_synonym bytes = string
type_synonym Header = "string \<rightharpoonup> string list"
type_synonym Values = "string \<rightharpoonup> string list"

datatype panic = NilDeref | NilMapWrite | PanicMsg string

record Conf =
  Timeout :: duration
  Debug :: bool

text \<open>
  The wire-level request \<^verbatim>\<open>*http.Request\<close> of the standard library, as far as the
  hooks of this package can observe and change it.
\<close>

record http_Request =
  hr_Method :: string
  hr_URL :: string
  hr_Header :: Header

text \<open>
  The body of a wire response is an \<^verbatim>\<open>io.ReadCloser\<close>: a stream that is drained by
  reading. \<open>bs_pending\<close> holds the bytes not yet read, \<open>bs_fault\<close> the error the
  stream ends with (nil at a regular end of file), \<open>bs_closed\<close> whether it was closed and
  \<open>bs_reads\<close> counts how often the stream was read to its end.
\<close>

record body_stream =
  bs_pending :: bytes
  bs_fault :: "error option"
  bs_closed :: bool
  bs_reads :: nat

record http_Response =
  hp_StatusCode :: int
  hp_Body :: body_stream

record http_Client =
  cl_Timeout :: duration

text \<open>
  \<^verbatim>\<open>type Response struct\<close>. The back pointer \<^verbatim>\<open>req\<close> is only read by \<^verbatim>\<open>Dump\<close>
  and is left out.
\<close>

record Response =
  rsp_rsp :: http_Response
  rsp_body :: "bytes option"
  rsp_err :: "error option"
  rsp_dump :: bool

text \<open>
  \<^verbatim>\<open>type Request struct\<close> is split in two: the plain fields, which a post-response hook
  is handed to look at, and the extension with the owning service and the two hook lists.
  A pre-send hook changes the wire request in place; a post-response hook returns its
  stop signal, and what else it may do to the request or the response it is handed is not
  modelled. A request holds its service by value: the service is not changed while a
  request of it is executed.
\<close>

record RequestData =
  req_uri :: string
  req_conf :: Conf
  req_method :: string
  req_retries :: "duration list"
  req_header :: "Header option"
  req_startAt :: time
  req_endAt :: time
  req_params :: "Values option"
  req_req :: "http_Request option"

type_synonym BeforeRequestHook = "http_Request \<Rightarrow> http_Request"
type_synonym AfterFunc = "RequestData \<Rightarrow> Response option \<Rightarrow> bool"

record Service =
  svc_host :: string
  svc_hosts :: "string list"
  svc_paths :: "(string \<rightharpoonup> string) option"
  svc_header :: "Header option"
  svc_conf :: Conf
  svc_client :: "http_Client option"
  svc_beforeRequest :: "BeforeRequestHook list"
  svc_afterHooks :: "AfterFunc list"

record Request = RequestData +
  req_service :: "Service option"
  req_beforeRequest :: "BeforeRequestHook list"
  req_afterHooks :: "AfterFunc list"

section \<open>The environment and the observable world\<close>

text \<open>
  Two things of the standard library decide what an execution does and are parameters of
  the model: \<^verbatim>\<open>http.NewRequest(method, url, nil)\<close>, which may reject a method or a URL,
  and the network behind \<^verbatim>\<open>http.Client.Do\<close>, given as the outcome of the \<open>k\<close>-th network
  call of the run (counted from 0) for the wire request it is handed.
\<close>

record env =
  http_NewRequest :: "string \<Rightarrow> string \<Rightarrow> error + http_Request"
  client_Do :: "nat \<Rightarrow> http_Request \<Rightarrow> error + http_Response"

text \<open>
  What an execution does to the outside is recorded in order: every network call, every
  sleep and every hook invocation, the latter with its scope (the service's list or the
  request's own list) and its position in that list. The clock is advanced by sleeping.
\<close>

datatype scope = Shared | Own

datatype event =
    Send nat
  | Sleep duration
  | Before scope nat
  | After scope nat

record world =
  now :: time
  trace :: "event list"

definition log :: "event \<Rightarrow> world \<Rightarrow> world" where
  "log e w = w\<lparr>trace := trace w @ [e]\<rparr>"

fun is_Send :: "event \<Rightarrow> bool" where
  "is_Send (Send k) = True"
| "is_Send e = False"

fun is_Before :: "event \<Rightarrow> bool" where
  "is_Before (Before sc i) = True"
| "is_Before e = False"

fun is_After :: "event \<Rightarrow> bool" where
  "is_After (After sc i) = True"
| "is_After e = False"

definition attempts :: "world \<Rightarrow> nat" where
  "attempts w = length (filter is_Send (trace w))"

fun sleeps :: "event list \<Rightarrow> duration list" where
  "sleeps [] = []"
| "sleeps (Sleep d # es) = d # sleeps es"
| "sleeps (e # es) = sleeps es"

definition time_Sleep :: "duration \<Rightarrow> world \<Rightarrow> world" where
  "time_Sleep d w = log (Sleep d) (w\<lparr>now := now w + max d 0\<rparr>)"

section \<open>Builders (service.go)\<close>

definition second :: duration where
  "second = 1000000000"

definition NewService :: "Conf option \<Rightarrow> Service" where
  "NewService conf =
     (let c = (case conf of None \<Rightarrow> \<lparr>Timeout = 20 * second, Debug = False\<rparr> | Some c' \<Rightarrow> c')
      in \<lparr>svc_host = [], svc_hosts = [], svc_paths = None, svc_header = None, svc_conf = c,
          svc_client = Some \<lparr>cl_Timeout = Timeout c\<rparr>,
          svc_beforeRequest = [], svc_afterHooks = []\<rparr>)"

text \<open>
  \<^verbatim>\<open>Service.Paths\<close>: the loop \<^verbatim>\<open>for i := 0; i < len(p); i += 2\<close> stores
  \<^verbatim>\<open>p[i] -> p[i+1]\<close>; it is only reached with an even number of arguments.
\<close>

fun store_pairs :: "string list \<Rightarrow> (string \<rightharpoonup> string) \<Rightarrow> (string \<rightharpoonup> string)" where
  "store_pairs (k # v # rest) m = store_pairs rest (m(k \<mapsto> v))"
| "store_pairs rest m = m"

definition Paths :: "string list \<Rightarrow> Service \<Rightarrow> panic + Service" where
  "Paths methodAndPath s =
     (if length methodAndPath mod 2 \<noteq> 0 then Inl (PanicMsg ''method and path are not pairs'')
      else
        let m = (case svc_paths s of None \<Rightarrow> Map.empty | Some m' \<Rightarrow> m')
        in Inr (s\<lparr>svc_paths := Some (store_pairs methodAndPath m)\<rparr>))"

definition Service_Request :: "string \<Rightarrow> string \<Rightarrow> Service \<Rightarrow> Request" where
  "Service_Request method uri s =
     \<lparr>req_uri = svc_host s @ uri, req_conf = svc_conf s, req_method = method, req_retries = [],
      req_header = svc_header s, req_startAt = 0, req_endAt = 0, req_params = None,
      req_req = None, req_service = Some s, req_beforeRequest = [], req_afterHooks = []\<rparr>"

definition Get :: "string \<Rightarrow> Service \<Rightarrow> Request" where
  "Get uri s = Service_Request ''GET'' uri s"

definition Post :: "string \<Rightarrow> Service \<Rightarrow> Request" where
  "Post uri s = Service_Request ''POST'' uri s"

definition NewRequest :: "string \<Rightarrow> string \<Rightarrow> Request" where
  "NewRequest method uri =
     \<lparr>req_uri = uri, req_conf = \<lparr>Timeout = 20 * second, Debug = False\<rparr>, req_method = method,
      req_retries = [], req_header = None, req_startAt = 0, req_endAt = 0, req_params = None,
      req_req = None, req_service = None, req_beforeRequest = [], req_afterHooks = []\<rparr>"

definition RetryDelay :: "duration list \<Rightarrow> Request \<Rightarrow> Request" where
  "RetryDelay retires rq = rq\<lparr>req_retries := retires\<rparr>"

text \<open>\<^verbatim>\<open>url.Values.Add\<close> appends the value to the list stored under the key.\<close>

definition Values_Add :: "string \<Rightarrow> string \<Rightarrow> Values \<Rightarrow> Values" where
  "Values_Add k v m = m(k \<mapsto> (case m k of None \<Rightarrow> [] | Some vs \<Rightarrow> vs) @ [v])"

fun add_pairs :: "string list \<Rightarrow> Values \<Rightarrow> Values" where
  "add_pairs (k # v # rest) m = add_pairs rest (Values_Add k v m)"
| "add_pairs rest m = m"

definition Params :: "string list \<Rightarrow> Request \<Rightarrow> panic + Request" where
  "Params params rq =
     (if length params mod 2 \<noteq> 0 then Inl (PanicMsg ''params error'')
      else
        let m = (case req_params rq of None \<Rightarrow> Map.empty | Some m' \<Rightarrow> m')
        in Inr (rq\<lparr>req_params := Some (add_pairs params m)\<rparr>))"

definition BeforeRequest :: "BeforeRequestHook list \<Rightarrow> Request \<Rightarrow> Request" where
  "BeforeRequest hooks rq = rq\<lparr>req_beforeRequest := req_beforeRequest rq @ hooks\<rparr>"

definition AfterExec :: "AfterFunc list \<Rightarrow> Request \<Rightarrow> Request" where
  "AfterExec hooks rq = rq\<lparr>req_afterHooks := req_afterHooks rq @ hooks\<rparr>"

section \<open>The executor (service.go)\<close>

text \<open>
  \<^verbatim>\<open>Request.Request\<close>: the wire request is built once and kept in \<^verbatim>\<open>req.req\<close>; an
  empty method becomes GET before the standard library is asked.
\<close>

definition Request_Request :: "env \<Rightarrow> Request \<Rightarrow> (error + http_Request) \<times> Request" where
  "Request_Request E rq =
     (case req_req rq of
        Some r \<Rightarrow> (Inr r, rq)
      | None \<Rightarrow>
          (let rq1 = (if req_method rq = [] then rq\<lparr>req_method := ''GET''\<rparr> else rq)
           in (case http_NewRequest E (req_method rq1) (req_uri rq1) of
                 Inl e \<Rightarrow> (Inl e, rq1)
               | Inr r \<Rightarrow> (Inr r, rq1\<lparr>req_req := Some r\<rparr>))))"

text \<open>
  \<^verbatim>\<open>Request._do\<close> performs one network call through \<^verbatim>\<open>req.service.client\<close>. Reading
  \<^verbatim>\<open>client\<close> through a nil \<^verbatim>\<open>service\<close>, or calling \<^verbatim>\<open>Do\<close> on a nil client, panics.
\<close>

type_synonym result = "Response option \<times> error option"

definition underscore_do :: "env \<Rightarrow> Request \<Rightarrow> http_Request \<Rightarrow> world \<Rightarrow> panic + (result \<times> world)" where
  "underscore_do E rq r w =
     (case req_service rq of
        None \<Rightarrow> Inl NilDeref
      | Some s \<Rightarrow>
          (case svc_client s of
             None \<Rightarrow> Inl NilDeref
           | Some c \<Rightarrow>
               (let k = attempts w; w' = log (Send k) w
                in (case client_Do E k r of
                      Inl e \<Rightarrow> Inr ((None, Some e), w')
                    | Inr resp \<Rightarrow>
                        Inr ((Some \<lparr>rsp_rsp = resp, rsp_body = None, rsp_err = None,
                                    rsp_dump = False\<rparr>, None), w')))))"

text \<open>\<^verbatim>\<open>Request.client\<close>, the nil-safe accessor. No function of the package calls it.\<close>

definition client :: "Request \<Rightarrow> http_Client option" where
  "client rq =
     (case req_service rq of
        Some s \<Rightarrow> svc_client s
      | None \<Rightarrow> Some \<lparr>cl_Timeout = Timeout (req_conf rq)\<rparr>)"

text \<open>\<^verbatim>\<open>Request.doBeforeRequestHooks\<close>: the service's hooks, then the request's own.\<close>

fun run_before :: "scope \<Rightarrow> nat \<Rightarrow> BeforeRequestHook list \<Rightarrow> http_Request \<Rightarrow> world
    \<Rightarrow> http_Request \<times> world" where
  "run_before sc i [] r w = (r, w)"
| "run_before sc i (hook # hooks) r w = run_before sc (Suc i) hooks (hook r) (log (Before sc i) w)"

definition doBeforeRequestHooks :: "Request \<Rightarrow> http_Request \<Rightarrow> world \<Rightarrow> http_Request \<times> world" where
  "doBeforeRequestHooks rq r w =
     (let (r1, w1) = (case req_service rq of
                        None \<Rightarrow> (r, w)
                      | Some s \<Rightarrow> run_before Shared 0 (svc_beforeRequest s) r w)
      in run_before Own 0 (req_beforeRequest rq) r1 w1)"

text \<open>
  \<^verbatim>\<open>Request.doAfterHooks\<close>: each loop returns from the function as soon as a hook
  answers true.
\<close>

fun run_after :: "scope \<Rightarrow> nat \<Rightarrow> AfterFunc list \<Rightarrow> RequestData \<Rightarrow> Response option \<Rightarrow> world
    \<Rightarrow> bool \<times> world" where
  "run_after sc i [] rd rsp w = (False, w)"
| "run_after sc i (hook # hooks) rd rsp w =
     (let w' = log (After sc i) w
      in if hook rd rsp then (True, w') else run_after sc (Suc i) hooks rd rsp w')"

definition doAfterHooks :: "Request \<Rightarrow> Response option \<Rightarrow> world \<Rightarrow> bool \<times> world" where
  "doAfterHooks rq rsp w =
     (let rd = RequestData.truncate rq
      in case req_service rq of
           None \<Rightarrow> run_after Own 0 (req_afterHooks rq) rd rsp w
         | Some s \<Rightarrow>
             (case run_after Shared 0 (svc_afterHooks s) rd rsp w of
                (True, w1) \<Rightarrow> (True, w1)
              | (False, w1) \<Rightarrow> run_after Own 0 (req_afterHooks rq) rd rsp w1))"

text \<open>
  \<^verbatim>\<open>Request.do\<close>. The loop over \<^verbatim>\<open>req.retries\<close> sleeps, calls again and returns from
  the function when that call gave an error; otherwise it goes on with the next delay.
  The pre-send hooks change the wire request in place, and \<^verbatim>\<open>req.req\<close> points to the
  same object: after the hooks it holds the changed wire request.
\<close>

fun retry_loop :: "env \<Rightarrow> Request \<Rightarrow> http_Request \<Rightarrow> duration list \<Rightarrow> result \<Rightarrow> world
    \<Rightarrow> panic + (result \<times> world)" where
  "retry_loop E rq r [] res w = Inr (res, w)"
| "retry_loop E rq r (wait # rest) res w =
     (case underscore_do E rq r (time_Sleep wait w) of
        Inl p \<Rightarrow> Inl p
      | Inr ((rsp, err), w') \<Rightarrow>
          if err \<noteq> None then Inr ((rsp, err), w')
          else retry_loop E rq r rest (rsp, err) w')"

definition Request_do :: "env \<Rightarrow> Request \<Rightarrow> world \<Rightarrow> panic + (result \<times> Request \<times> world)" where
  "Request_do E rq w =
     (case Request_Request E rq of
        (Inl e, rq1) \<Rightarrow> Inr ((None, Some e), rq1, w)
      | (Inr r, rq1) \<Rightarrow>
          (let (r', w1) = doBeforeRequestHooks rq1 r w;
               rq2 = rq1\<lparr>req_req := Some r', req_startAt := now w1\<rparr>
           in (case underscore_do E rq2 r' w1 of
                 Inl p \<Rightarrow> Inl p
               | Inr ((rsp, err), w2) \<Rightarrow>
                   if err = None then Inr ((rsp, err), rq2, w2)
                   else (case retry_loop E rq2 r' (req_retries rq2) (rsp, err) w2 of
                           Inl p \<Rightarrow> Inl p
                         | Inr (res, w3) \<Rightarrow> Inr (res, rq2, w3)))))"

text \<open>\<^verbatim>\<open>Request.Response\<close>: execute, stamp the end time, run the post-response hooks.\<close>

definition Request_Response :: "env \<Rightarrow> Request \<Rightarrow> world \<Rightarrow> panic + (result \<times> Request \<times> world)" where
  "Request_Response E rq w =
     (case Request_do E (rq\<lparr>req_startAt := now w\<rparr>) w of
        Inl p \<Rightarrow> Inl p
      | Inr ((rsp, err), rq1, w1) \<Rightarrow>
          let rq2 = rq1\<lparr>req_endAt := now w1\<rparr>;
              (stop, w2) = doAfterHooks rq2 rsp w1
          in Inr ((rsp, err), rq2, w2))"

section \<open>Reading the body (service.go)\<close>

text \<open>
  \<^verbatim>\<open>ioutil.ReadAll\<close> on the body stream returns everything not yet read together with
  the error the stream ends with, and leaves the stream drained. A closed body of the
  standard library answers every read with an error.
\<close>

definition ioutil_ReadAll :: "body_stream \<Rightarrow> (bytes \<times> error option) \<times> body_stream" where
  "ioutil_ReadAll b =
     (if bs_closed b
      then (([], Some ''http: read on closed response body''), b\<lparr>bs_reads := Suc (bs_reads b)\<rparr>)
      else ((bs_pending b, bs_fault b), b\<lparr>bs_pending := [], bs_reads := Suc (bs_reads b)\<rparr>))"

definition Body_Close :: "body_stream \<Rightarrow> body_stream" where
  "Body_Close b = b\<lparr>bs_closed := True\<rparr>"

text \<open>
  \<^verbatim>\<open>Response.Bytes\<close>. The first branch answers from \<^verbatim>\<open>rsp.body\<close> and \<^verbatim>\<open>rsp.err\<close>;
  the second reads the stream and, when that gave no error, closes it on return. No
  statement of the function assigns \<^verbatim>\<open>rsp.body\<close> or \<^verbatim>\<open>rsp.err\<close>.
\<close>

definition Bytes :: "Response \<Rightarrow> (bytes option \<times> error option) \<times> Response" where
  "Bytes rsp =
     (if rsp_body rsp \<noteq> None \<or> rsp_err rsp \<noteq> None then ((rsp_body rsp, rsp_err rsp), rsp)
      else
        let ((bs, err), b') = ioutil_ReadAll (hp_Body (rsp_rsp rsp))
        in if err \<noteq> None
           then ((Some bs, err), rsp\<lparr>rsp_rsp := (rsp_rsp rsp)\<lparr>hp_Body := b'\<rparr>\<rparr>)
           else ((Some bs, err), rsp\<lparr>rsp_rsp := (rsp_rsp rsp)\<lparr>hp_Body := Body_Close b'\<rparr>\<rparr>))"

section \<open>Group (group.go)\<close>

text \<open>
  Channels and cancellable contexts are objects on a heap and are named by their index
  there. A channel has a capacity, the envelopes it buffers and a closed flag; of a
  context only whether \<^verbatim>\<open>Done()\<close> is closed matters.
\<close>

type_synonym chan = nat
type_synonym ctx = nat

record ResponseWrapper =
  rw_Response :: "Response option"
  rw_Err :: "error option"

record channel =
  ch_cap :: nat
  ch_buf :: "ResponseWrapper list"
  ch_closed :: bool

record Group =
  g_requests :: "Request list"
  g_sync :: "chan option"
  g_async :: "chan option"
  g_next :: "ctx option"
  g_stop :: "ctx option"

definition NewGroup :: "Request list \<Rightarrow> Group" where
  "NewGroup rqs = \<lparr>g_requests = rqs, g_sync = None, g_async = None, g_next = None, g_stop = None\<rparr>"

text \<open>
  The goroutine that \<^verbatim>\<open>Sync\<close> starts is at one of three places of its loop body, with
  its local variables: at the head of the loop for request \<open>i\<close>; blocked in the send of
  the envelope of request \<open>i\<close> on the unbuffered channel; or blocked in the
  \<^verbatim>\<open>select\<close> on its two contexts.
\<close>

datatype sync_pc =
    AtRange nat
  | AtSend nat ResponseWrapper ctx ctx
  | AtSelect nat ctx ctx

text \<open>
  The state of a program that uses one Group: the Group, the outside world, the heap of
  channels and of contexts, the goroutine of \<^verbatim>\<open>Sync\<close> if one is running, whether the
  collecting goroutine of \<^verbatim>\<open>Async\<close> is running, the envelopes the consumer has received
  so far with the channel each came from, and the panic that ended the process, if any.
\<close>

record sys =
  sy_group :: Group
  sy_world :: world
  sy_chans :: "channel list"
  sy_ctxs :: "bool list"
  sy_producer :: "sync_pc option"
  sy_collector :: bool
  sy_received :: "(chan \<times> ResponseWrapper) list"
  sy_panic :: "panic option"

definition boot :: "Group \<Rightarrow> world \<Rightarrow> sys" where
  "boot g w = \<lparr>sy_group = g, sy_world = w, sy_chans = [], sy_ctxs = [], sy_producer = None,
               sy_collector = False, sy_received = [], sy_panic = None\<rparr>"

definition make_chan :: "nat \<Rightarrow> sys \<Rightarrow> chan \<times> sys" where
  "make_chan n s =
     (length (sy_chans s),
      s\<lparr>sy_chans := sy_chans s @ [\<lparr>ch_cap = n, ch_buf = [], ch_closed = False\<rparr>]\<rparr>)"

text \<open>\<^verbatim>\<open>close(ch)\<close> panics on a nil channel and on a channel that is closed already.\<close>

definition close_chan :: "chan option \<Rightarrow> sys \<Rightarrow> sys" where
  "close_chan co s =
     (case co of
        None \<Rightarrow> s\<lparr>sy_panic := Some (PanicMsg ''close of nil channel'')\<rparr>
      | Some c \<Rightarrow>
          if ch_closed (sy_chans s ! c)
          then s\<lparr>sy_panic := Some (PanicMsg ''close of closed channel'')\<rparr>
          else s\<lparr>sy_chans := (sy_chans s)[c := (sy_chans s ! c)\<lparr>ch_closed := True\<rparr>]\<rparr>)"

definition WithCancel :: "sys \<Rightarrow> ctx \<times> sys" where
  "WithCancel s = (length (sy_ctxs s), s\<lparr>sy_ctxs := sy_ctxs s @ [False]\<rparr>)"

definition cancel :: "ctx \<Rightarrow> sys \<Rightarrow> sys" where
  "cancel c s = s\<lparr>sy_ctxs := (sy_ctxs s)[c := True]\<rparr>"

definition is_done :: "sys \<Rightarrow> ctx \<Rightarrow> bool" where
  "is_done s c = (c < length (sy_ctxs s) \<and> sy_ctxs s ! c)"

definition Continue :: "sys \<Rightarrow> sys" where
  "Continue s = (case g_next (sy_group s) of None \<Rightarrow> s | Some c \<Rightarrow> cancel c s)"

definition Stop :: "sys \<Rightarrow> sys" where
  "Stop s = (case g_stop (sy_group s) of None \<Rightarrow> s | Some c \<Rightarrow> cancel c s)"

text \<open>
  \<^verbatim>\<open>Group.Sync\<close>, the call itself: an existing channel is handed out again; otherwise
  an unbuffered channel is made and the goroutine is started at the head of its loop.
\<close>

definition Sync :: "sys \<Rightarrow> chan \<times> sys" where
  "Sync s =
     (case g_sync (sy_group s) of
        Some c \<Rightarrow> (c, s)
      | None \<Rightarrow>
          (let (c, s1) = make_chan 0 s
           in (c, s1\<lparr>sy_group := (sy_group s1)\<lparr>g_sync := Some c\<rparr>,
                     sy_producer := Some (AtRange 0)\<rparr>)))"

text \<open>The deferred function of the goroutine: \<^verbatim>\<open>close(g.sync); g.sync = nil\<close>.\<close>

definition finish_sync :: "sys \<Rightarrow> sys" where
  "finish_sync s =
     (let s1 = close_chan (g_sync (sy_group s)) s
      in s1\<lparr>sy_group := (sy_group s1)\<lparr>g_sync := None\<rparr>, sy_producer := None\<rparr>)"

text \<open>
  One pass of the goroutine from the head of its loop to the send: execute request \<open>i\<close>
  (a panic there ends the process), make the two contexts and publish their cancel
  functions in the Group. Past the last request the loop ends and the deferred function
  runs.
\<close>

definition sync_iteration :: "env \<Rightarrow> nat \<Rightarrow> sys \<Rightarrow> sys" where
  "sync_iteration E i s =
     (if i < length (g_requests (sy_group s)) then
        (case Request_Response E (g_requests (sy_group s) ! i) (sy_world s) of
           Inl p \<Rightarrow> s\<lparr>sy_panic := Some p\<rparr>
         | Inr ((rsp, err), rq', w') \<Rightarrow>
             (let s1 = s\<lparr>sy_world := w',
                          sy_group := (sy_group s)\<lparr>g_requests := (g_requests (sy_group s))[i := rq']\<rparr>\<rparr>;
                  (n, s2) = WithCancel s1;
                  s3 = s2\<lparr>sy_group := (sy_group s2)\<lparr>g_next := Some n\<rparr>\<rparr>;
                  (st, s4) = WithCancel s3;
                  s5 = s4\<lparr>sy_group := (sy_group s4)\<lparr>g_stop := Some st\<rparr>\<rparr>
              in s5\<lparr>sy_producer := Some (AtSend i \<lparr>rw_Response = rsp, rw_Err = err\<rparr> n st)\<rparr>))
      else finish_sync s)"

text \<open>
  The moves of the program. The consumer calls \<^verbatim>\<open>Sync\<close>, \<^verbatim>\<open>Continue\<close> or \<^verbatim>\<open>Stop\<close>,
  or receives from a channel; the goroutine runs from the head of its loop, or leaves its
  \<^verbatim>\<open>select\<close> by the one or the other case. \<open>step\<close> gives the state after a move, and
  \<open>None\<close> where the move cannot be made: a receive with no sender on an open channel
  blocks, a blocked goroutine does not run, a \<^verbatim>\<open>select\<close> case is only taken when its
  context is done, and nothing moves after a panic.
\<close>

datatype action = CallSync | CallContinue | CallStop | Receive chan | Run | WakeNext | WakeStop

fun step :: "env \<Rightarrow> action \<Rightarrow> sys \<Rightarrow> sys option" where
  "step E a s =
     (if sy_panic s \<noteq> None then None
      else
        (case a of
           CallSync \<Rightarrow> Some (snd (Sync s))
         | CallContinue \<Rightarrow> Some (Continue s)
         | CallStop \<Rightarrow> Some (Stop s)
         | Receive c \<Rightarrow>
             (if c < length (sy_chans s) then
                (case sy_producer s of
                   Some (AtSend i e n st) \<Rightarrow>
                     if g_sync (sy_group s) = Some c
                     then Some (s\<lparr>sy_received := sy_received s @ [(c, e)],
                                  sy_producer := Some (AtSelect i n st)\<rparr>)
                     else if ch_closed (sy_chans s ! c) then Some s else None
                 | _ \<Rightarrow> if ch_closed (sy_chans s ! c) then Some s else None)
              else None)
         | Run \<Rightarrow>
             (case sy_producer s of
                Some (AtRange i) \<Rightarrow> Some (sync_iteration E i s)
              | _ \<Rightarrow> None)
         | WakeNext \<Rightarrow>
             (case sy_producer s of
                Some (AtSelect i n st) \<Rightarrow>
                  if is_done s n then Some (s\<lparr>sy_producer := Some (AtRange (Suc i))\<rparr>) else None
              | _ \<Rightarrow> None)
         | WakeStop \<Rightarrow>
             (case sy_producer s of
                Some (AtSelect i n st) \<Rightarrow>
                  if is_done s st then Some (finish_sync s) else None
              | _ \<Rightarrow> None)))"

text \<open>A schedule is a list of moves; a move that cannot be made leaves the state as it is.\<close>

definition exec :: "env \<Rightarrow> action \<Rightarrow> sys \<Rightarrow> sys" where
  "exec E a s = (case step E a s of None \<Rightarrow> s | Some s' \<Rightarrow> s')"

definition run :: "env \<Rightarrow> action list \<Rightarrow> sys \<Rightarrow> sys" where
  "run E as s = fold (exec E) as s"

text \<open>
  \<^verbatim>\<open>Group.Async\<close>, the call itself: an existing channel is handed out again; otherwise a
  channel buffered to the number of requests is made and the collecting goroutine is
  started. \<open>finish_async\<close> is the end of that goroutine, after \<^verbatim>\<open>wg.Wait()\<close> has returned:
  \<^verbatim>\<open>close(g.async); g.async = nil\<close>. The worker goroutines are not part of the model.
\<close>

definition Async :: "sys \<Rightarrow> chan \<times> sys" where
  "Async s =
     (case g_async (sy_group s) of
        Some c \<Rightarrow> (c, s)
      | None \<Rightarrow>
          (let (c, s1) = make_chan (length (g_requests (sy_group s))) s
           in (c, s1\<lparr>sy_group := (sy_group s1)\<lparr>g_async := Some c\<rparr>, sy_collector := True\<rparr>)))"

definition finish_async :: "sys \<Rightarrow> sys" where
  "finish_async s =
     (let s1 = close_chan (g_async (sy_group s)) s
      in s1\<lparr>sy_group := (sy_group s1)\<lparr>g_async := None\<rparr>, sy_collector := False\<rparr>)"

section \<open>Notions used to state the properties\<close>

text \<open>
  What an observer of one execution sees: the panic, or the returned envelope together with
  everything that happened outside.
\<close>

definition observe :: "panic + (result \<times> Request \<times> world) \<Rightarrow> panic + (result \<times> event list)" where
  "observe x = (case x of Inl p \<Rightarrow> Inl p | Inr (res, rq, w) \<Rightarrow> Inr (res, trace w))"

text \<open>The hooks of the shared scope of a request: those of its service, if it has one.\<close>

definition shared_before :: "Request \<Rightarrow> BeforeRequestHook list" where
  "shared_before rq = (case req_service rq of None \<Rightarrow> [] | Some s \<Rightarrow> svc_beforeRequest s)"

definition shared_after :: "Request \<Rightarrow> AfterFunc list" where
  "shared_after rq = (case req_service rq of None \<Rightarrow> [] | Some s \<Rightarrow> svc_afterHooks s)"

text \<open>
  The hook invocations of a request in list order, the shared scope first; and the events
  of the network phase of an execution, its calls and its sleeps.
\<close>

definition before_events :: "Request \<Rightarrow> event list" where
  "before_events rq = map (Before Shared) [0..<length (shared_before rq)]
                      @ map (Before Own) [0..<length (req_beforeRequest rq)]"

definition after_events :: "Request \<Rightarrow> event list" where
  "after_events rq = map (After Shared) [0..<length (shared_after rq)]
                     @ map (After Own) [0..<length (req_afterHooks rq)]"

fun is_net :: "event \<Rightarrow> bool" where
  "is_net (Send k) = True"
| "is_net (Sleep d) = True"
| "is_net e = False"

text \<open>Whether the wire request of a request exists or can be built.\<close>

definition materializes :: "env \<Rightarrow> Request \<Rightarrow> bool" where
  "materializes E rq = (case fst (Request_Request E rq) of Inl e \<Rightarrow> False | Inr r \<Rightarrow> True)"

text \<open>
  The pairs that an argument list of even length spells out, in order, and what
  \<^verbatim>\<open>url.Values\<close> holds under a key after the values of these pairs were added.
\<close>

fun pairs :: "'a list \<Rightarrow> ('a \<times> 'a) list" where
  "pairs (k # v # rest) = (k, v) # pairs rest"
| "pairs rest = []"

definition values_at :: "Values \<Rightarrow> string \<Rightarrow> string list" where
  "values_at m k = (case m k of None \<Rightarrow> [] | Some vs \<Rightarrow> vs)"

definition added_values :: "string list \<Rightarrow> Values \<Rightarrow> Values" where
  "added_values xs m =
     (\<lambda>k. let new = map snd (filter (\<lambda>p. fst p = k) (pairs xs))
          in if new = [] then m k else Some (values_at m k @ new))"

text \<open>
  The invariant of the sequential stream. A panic can only have come from executing a
  request, which leaves the goroutine at the head of its loop. While the goroutine runs,
  \<^verbatim>\<open>g.sync\<close> names an open channel, and from the send on, \<^verbatim>\<open>g.next\<close> and
  \<^verbatim>\<open>g.stop\<close> are the cancel functions of the two contexts the goroutine waits on;
  when no goroutine runs, \<^verbatim>\<open>g.sync\<close> is nil.
\<close>

definition tokens_ok :: "sys \<Rightarrow> ctx \<Rightarrow> ctx \<Rightarrow> bool" where
  "tokens_ok s n st =
     (g_next (sy_group s) = Some n \<and> g_stop (sy_group s) = Some st \<and> n < st
      \<and> st < length (sy_ctxs s))"

fun pc_ok :: "sys \<Rightarrow> sync_pc \<Rightarrow> bool" where
  "pc_ok s (AtRange i) = True"
| "pc_ok s (AtSend i e n st) = tokens_ok s n st"
| "pc_ok s (AtSelect i n st) = tokens_ok s n st"

definition open_chan :: "sys \<Rightarrow> chan option \<Rightarrow> bool" where
  "open_chan s co =
     (case co of None \<Rightarrow> False
      | Some c \<Rightarrow> c < length (sy_chans s) \<and> \<not> ch_closed (sy_chans s ! c))"

definition stream_inv :: "sys \<Rightarrow> bool" where
  "stream_inv s =
     ((case sy_panic s of None \<Rightarrow> True
       | Some p \<Rightarrow> (case sy_producer s of Some (AtRange i) \<Rightarrow> True | _ \<Rightarrow> False))
      \<and> (case sy_producer s of
            None \<Rightarrow> g_sync (sy_group s) = None
          | Some pc \<Rightarrow> open_chan s (g_sync (sy_group s)) \<and> pc_ok s pc))"

section \<open>Sample inputs\<close>

text \<open>
  A standard library that accepts every method and URL, and one that rejects them all; a
  network that refuses every call, and one that refuses the first \<open>n\<close> calls and then
  answers with a page.
\<close>

definition wire_ok :: "string \<Rightarrow> string \<Rightarrow> error + http_Request" where
  "wire_ok m u = Inr \<lparr>hr_Method = m, hr_URL = u, hr_Header = Map.empty\<rparr>"

definition page :: http_Response where
  "page = \<lparr>hp_StatusCode = 200,
           hp_Body = \<lparr>bs_pending = ''hi'', bs_fault = None, bs_closed = False, bs_reads = 0\<rparr>\<rparr>"

definition net_down :: env where
  "net_down = \<lparr>http_NewRequest = wire_ok, client_Do = (\<lambda>k r. Inl ''connection refused'')\<rparr>"

definition net_up_after :: "nat \<Rightarrow> env" where
  "net_up_after n = \<lparr>http_NewRequest = wire_ok,
      client_Do = (\<lambda>k r. if k < n then Inl ''connection refused'' else Inr page)\<rparr>"

definition no_wire :: env where
  "no_wire = \<lparr>http_NewRequest = (\<lambda>m u. Inl ''net/http: invalid method''),
              client_Do = (\<lambda>k r. Inr page)\<rparr>"

definition w0 :: world where
  "w0 = \<lparr>now = 0, trace = []\<rparr>"

definition wire0 :: http_Request where
  "wire0 = \<lparr>hr_Method = ''GET'', hr_URL = ''/a'', hr_Header = Map.empty\<rparr>"

text \<open>
  A service whose pre-send hook sets a header and a request of it whose own pre-send hook
  copies that header; the first of the request's own post-response hooks signals stop.
\<close>

definition set_header :: "string \<Rightarrow> string \<Rightarrow> BeforeRequestHook" where
  "set_header k v r = r\<lparr>hr_Header := (hr_Header r)(k \<mapsto> [v])\<rparr>"

definition copy_header :: "string \<Rightarrow> string \<Rightarrow> BeforeRequestHook" where
  "copy_header k k' r = r\<lparr>hr_Header := (hr_Header r)(k' := hr_Header r k)\<rparr>"

definition never_stop :: AfterFunc where
  "never_stop rd rsp = False"

definition always_stop :: AfterFunc where
  "always_stop rd rsp = True"

definition hooked_service :: Service where
  "hooked_service = (NewService None)\<lparr>svc_beforeRequest := [set_header ''X-Trace'' ''shared''],
                                     svc_afterHooks := [never_stop]\<rparr>"

definition hooked_request :: Request where
  "hooked_request =
     AfterExec [always_stop, never_stop]
       (BeforeRequest [copy_header ''X-Trace'' ''X-Seen''] (Get ''/a'' hooked_service))"

text \<open>The response that \<^verbatim>\<open>_do\<close> builds around the page, before anything was read.\<close>

definition fresh_response :: Response where
  "fresh_response = \<lparr>rsp_rsp = page, rsp_body = None, rsp_err = None, rsp_dump = False\<rparr>"

text \<open>
  A Group of three requests; the program after the consumer has called \<^verbatim>\<open>Sync\<close>, the
  goroutine has executed the first request and the consumer has received its envelope; and
  the program after a call of \<^verbatim>\<open>Async\<close>.
\<close>

definition three_gets :: "Request list" where
  "three_gets = [Get ''/a'' (NewService None), Get ''/b'' (NewService None),
                 Get ''/c'' (NewService None)]"

definition paused :: sys where
  "paused = run (net_up_after 0) [CallSync, Run, Receive 0] (boot (NewGroup three_gets) w0)"

definition fanned :: sys where
  "fanned = snd (Async (boot (NewGroup three_gets) w0))"

lemmas exec_defs = Request_Response_def Request_do_def Request_Request_def underscore_do_def
  doBeforeRequestHooks_def doAfterHooks_def attempts_def log_def time_Sleep_def
  RequestData.truncate_def

lemmas build_defs = RetryDelay_def Get_def Post_def Service_Request_def NewService_def
  NewRequest_def BeforeRequest_def AfterExec_def

lemmas sample_defs = observe_def net_down_def net_up_after_def no_wire_def wire_ok_def w0_def
  wire0_def page_def hooked_service_def hooked_request_def never_stop_def always_stop_def
  set_header_def copy_header_def fresh_response_def

lemmas group_defs = Sync_def Async_def make_chan_def close_chan_def WithCancel_def cancel_def
  is_done_def Continue_def Stop_def finish_sync_def finish_async_def sync_iteration_def

lemmas sys_defs = paused_def fanned_def three_gets_def run_def exec_def boot_def NewGroup_def

section \<open>Hook order (claim C5)\<close>

lemma takeWhile_short:
  "(length (takeWhile P xs) < length xs) = (\<exists>x \<in> set xs. \<not> P x)"
  by (induction xs) auto

lemma upt_shift: "[i..<i + Suc n] = i # [Suc i..<Suc i + n]"
  by (subst upt_rec) simp

lemma run_before_eq:
  "run_before sc i hooks r w =
     (fold (\<lambda>hook. hook) hooks r, w\<lparr>trace := trace w @ map (Before sc) [i..<i + length hooks]\<rparr>)"
proof (induction hooks arbitrary: i r w)
  case Nil
  then show ?case by simp
next
  case (Cons hook hooks)
  have "length (hook # hooks) = Suc (length hooks)" by simp
  then show ?case unfolding run_before.simps Cons
    by (simp only: upt_shift) (simp add: log_def)
qed

lemma run_after_eq:
  "run_after sc i hooks rd rsp w =
     (length (takeWhile (\<lambda>hook. \<not> hook rd rsp) hooks) < length hooks,
      w\<lparr>trace := trace w @ take (Suc (length (takeWhile (\<lambda>hook. \<not> hook rd rsp) hooks)))
                               (map (After sc) [i..<i + length hooks])\<rparr>)"
proof (induction hooks arbitrary: i w)
  case Nil
  then show ?case by simp
next
  case (Cons hook hooks)
  have len: "length (hook # hooks) = Suc (length hooks)" by simp
  show ?case
  proof (cases "hook rd rsp")
    case True
    then show ?thesis unfolding run_after.simps len upt_shift by (simp add: log_def)
  next
    case False
    then show ?thesis unfolding run_after.simps len upt_shift Cons by (simp add: log_def)
  qed
qed

lemma before_order:
  "doBeforeRequestHooks rq r w =
     (fold (\<lambda>hook. hook) (shared_before rq @ req_beforeRequest rq) r,
      w\<lparr>trace := trace w @ map (Before Shared) [0..<length (shared_before rq)]
                          @ map (Before Own) [0..<length (req_beforeRequest rq)]\<rparr>)"
  by (cases "req_service rq") (simp_all add: doBeforeRequestHooks_def shared_before_def run_before_eq)

lemma after_order:
  "doAfterHooks rq rsp w =
     (let hooks = shared_after rq @ req_afterHooks rq;
          k = length (takeWhile (\<lambda>hook. \<not> hook (RequestData.truncate rq) rsp) hooks)
      in (k < length hooks,
          w\<lparr>trace := trace w @ take (Suc k) (map (After Shared) [0..<length (shared_after rq)]
                                              @ map (After Own) [0..<length (req_afterHooks rq)])\<rparr>))"
proof (cases "req_service rq")
  case None
  then show ?thesis
    by (simp add: doAfterHooks_def shared_after_def run_after_eq Let_def)
next
  case (Some s)
  let ?P = "\<lambda>hook. \<not> hook (RequestData.truncate rq) rsp"
  let ?sh = "svc_afterHooks s" and ?own = "req_afterHooks rq"
  have sh: "shared_after rq = ?sh" using Some by (simp add: shared_after_def)
  show ?thesis
  proof (cases "\<forall>hook \<in> set ?sh. ?P hook")
    case True
    have tw: "takeWhile ?P (?sh @ ?own) = ?sh @ takeWhile ?P ?own"
      by (rule takeWhile_append2) (use True in blast)
    have tws: "takeWhile ?P ?sh = ?sh" using True by (simp add: takeWhile_eq_all_conv)
    show ?thesis unfolding sh Let_def tw
      by (simp add: doAfterHooks_def Some run_after_eq tws Let_def)
  next
    case False
    then obtain h where h: "h \<in> set ?sh" "\<not> ?P h" by blast
    then have tw: "takeWhile ?P (?sh @ ?own) = takeWhile ?P ?sh"
      by (simp add: takeWhile_append1)
    have lt: "length (takeWhile ?P ?sh) < length ?sh"
      using h by (auto simp: takeWhile_short)
    show ?thesis unfolding sh Let_def tw using lt
      by (simp add: doAfterHooks_def Some run_after_eq Let_def)
  qed
qed

lemma underscore_do_trace:
  "underscore_do E rq r w = Inr (res, w') \<Longrightarrow> trace w' = trace w @ [Send (attempts w)]"
  by (auto simp: underscore_do_def Let_def log_def split: option.splits sum.splits)

lemma retry_loop_trace:
  "retry_loop E rq r ds res w = Inr (res', w')
   \<Longrightarrow> \<exists>net. trace w' = trace w @ net \<and> list_all is_net net"
proof (induction ds arbitrary: res w)
  case Nil
  then show ?case by simp
next
  case (Cons d ds)
  show ?case
  proof (cases "underscore_do E rq r (time_Sleep d w)")
    case (Inl p)
    with Cons.prems show ?thesis by simp
  next
    case (Inr x)
    obtain rsp err w1 where x: "x = ((rsp, err), w1)" by (cases x) auto
    have t1: "trace w1 = trace w @ [Sleep d, Send (attempts (time_Sleep d w))]"
      using underscore_do_trace[OF Inr[unfolded x]] by (simp add: time_Sleep_def log_def)
    show ?thesis
    proof (cases "err = None")
      case False
      with Cons.prems Inr x have "w' = w1" by auto
      with t1 show ?thesis by simp
    next
      case True
      with Cons.prems Inr x have "retry_loop E rq r ds (rsp, err) w1 = Inr (res', w')" by simp
      from Cons.IH[OF this] obtain net where "trace w' = trace w1 @ net" "list_all is_net net"
        by blast
      with t1 show ?thesis by simp
    qed
  qed
qed

lemma Request_Request_hooks:
  "Request_Request E rq = (x, rq1)
   \<Longrightarrow> req_service rq1 = req_service rq \<and> req_beforeRequest rq1 = req_beforeRequest rq
       \<and> req_afterHooks rq1 = req_afterHooks rq"
  by (auto simp: Request_Request_def Let_def split: option.splits sum.splits if_splits)

lemma events_cong:
  "req_service rq1 = req_service rq \<Longrightarrow> req_beforeRequest rq1 = req_beforeRequest rq
   \<Longrightarrow> req_afterHooks rq1 = req_afterHooks rq
   \<Longrightarrow> before_events rq1 = before_events rq \<and> after_events rq1 = after_events rq
       \<and> shared_after rq1 = shared_after rq"
  by (simp add: before_events_def after_events_def shared_before_def shared_after_def)

lemma do_shape:
  assumes "Request_do E rq w = Inr (res, rq1, w1)"
  shows "req_service rq1 = req_service rq \<and> req_beforeRequest rq1 = req_beforeRequest rq
       \<and> req_afterHooks rq1 = req_afterHooks rq
       \<and> (\<exists>pre net. trace w1 = trace w @ pre @ net \<and> (pre = [] \<or> pre = before_events rq)
                      \<and> list_all is_net net)"
proof -
  obtain x rq0 where rr: "Request_Request E rq = (x, rq0)" by (cases "Request_Request E rq")
  note h0 = Request_Request_hooks[OF rr]
  show ?thesis
  proof (cases x)
    case (Inl e)
    with assms rr have "rq1 = rq0" "w1 = w" by (simp_all add: Request_do_def)
    with h0 show ?thesis by auto
  next
    case (Inr r)
    obtain r' wB where b: "doBeforeRequestHooks rq0 r w = (r', wB)"
      by (cases "doBeforeRequestHooks rq0 r w")
    have "wB = snd (doBeforeRequestHooks rq0 r w)" by (simp add: b)
    then have "trace wB = trace w @ before_events rq0"
      by (simp add: before_order before_events_def)
    moreover have "before_events rq0 = before_events rq"
      using events_cong[of rq0 rq] h0 by simp
    ultimately have tB: "trace wB = trace w @ before_events rq" by simp
    define rq2 where "rq2 = rq0\<lparr>req_req := Some r', req_startAt := now wB\<rparr>"
    show ?thesis
    proof (cases "underscore_do E rq2 r' wB")
      case (Inl p)
      with assms rr Inr b show ?thesis by (simp add: Request_do_def rq2_def Let_def)
    next
      case (Inr y)
      obtain rsp err w2 where y: "y = ((rsp, err), w2)" by (cases y) auto
      have t2: "trace w2 = trace wB @ [Send (attempts wB)]"
        using underscore_do_trace[OF Inr[unfolded y]] .
      show ?thesis
      proof (cases "err = None")
        case True
        with assms rr \<open>x = Inr r\<close> b Inr y have "rq1 = rq2" "w1 = w2"
          by (simp_all add: Request_do_def rq2_def Let_def)
        have "trace w1 = trace w @ before_events rq @ [Send (attempts wB)]"
          "list_all is_net [Send (attempts wB)]"
          using tB t2 \<open>w1 = w2\<close> by simp_all
        then have "\<exists>pre net. trace w1 = trace w @ pre @ net
                     \<and> (pre = [] \<or> pre = before_events rq) \<and> list_all is_net net"
          by blast
        with h0 \<open>rq1 = rq2\<close> show ?thesis by (simp add: rq2_def)
      next
        case False
        with assms rr \<open>x = Inr r\<close> b Inr y
        obtain w3 where l: "retry_loop E rq2 r' (req_retries rq2) (rsp, err) w2 = Inr (res, w3)"
          and e: "rq1 = rq2" "w1 = w3"
          by (auto simp: Request_do_def rq2_def Let_def split: sum.splits)
        from retry_loop_trace[OF l] obtain net where "trace w3 = trace w2 @ net" "list_all is_net net"
          by blast
        with h0 tB t2 e have "trace w1 = trace w @ before_events rq @ (Send (attempts wB) # net)"
          "list_all is_net (Send (attempts wB) # net)" by simp_all
        then have "\<exists>pre net. trace w1 = trace w @ pre @ net
                     \<and> (pre = [] \<or> pre = before_events rq) \<and> list_all is_net net"
          by blast
        with h0 e show ?thesis by (simp add: rq2_def)
      qed
    qed
  qed
qed

lemma Response_shape:
  assumes "Request_Response E rq w = Inr (res, rq', w')"
  shows "\<exists>pre net. trace w' = trace w @ pre @ net
           @ take (Suc (length (takeWhile (\<lambda>hook. \<not> hook (RequestData.truncate rq') (fst res))
                                   (shared_after rq @ req_afterHooks rq))))
                  (after_events rq)
         \<and> (pre = [] \<or> pre = before_events rq) \<and> list_all is_net net"
proof -
  let ?rq = "rq\<lparr>req_startAt := now w\<rparr>"
  from assms obtain rq1 w1 where d: "Request_do E ?rq w = Inr (res, rq1, w1)"
    and rq': "rq' = rq1\<lparr>req_endAt := now w1\<rparr>"
    and w': "w' = snd (doAfterHooks rq' (fst res) w1)"
    by (auto simp: Request_Response_def Let_def split: sum.splits prod.splits)
  from do_shape[OF d] obtain pre net where
    h: "req_service rq1 = req_service ?rq" "req_beforeRequest rq1 = req_beforeRequest ?rq"
       "req_afterHooks rq1 = req_afterHooks ?rq"
    and t: "trace w1 = trace w @ pre @ net" "pre = [] \<or> pre = before_events ?rq" "list_all is_net net"
    by blast
  have c1: "after_events rq' = after_events rq" "shared_after rq' = shared_after rq"
    "req_afterHooks rq' = req_afterHooks rq" "before_events ?rq = before_events rq"
    using h by (simp_all add: rq' before_events_def after_events_def shared_before_def shared_after_def)
  have "trace w' = trace w1 @ take (Suc (length (takeWhile (\<lambda>hook. \<not> hook (RequestData.truncate rq') (fst res))
                                   (shared_after rq' @ req_afterHooks rq'))))
                  (after_events rq')"
    unfolding w' by (simp add: after_order Let_def after_events_def)
  with t c1 show ?thesis by auto
qed

text \<open>
  C5. In the pre-send phase the wire request is passed through the service's hooks and then
  through the request's own hooks, each list in its order, and every hook is invoked. In
  the post-response phase the hooks are tried in the same order, the service's first, and
  the hooks invoked are those up to and including the first one that answers true: \<open>k\<close>
  hooks answer false before it, \<open>k + 1\<close> hooks are invoked, and the phase reports stop
  exactly when some hook answered true. Every execution that returns an envelope consists
  of these two phases with only network calls and sleeps between them; the pre-send phase
  is missing when the wire request could not be built.
\<close>

theorem hooks_shared_before_own:
  "doBeforeRequestHooks rq r w =
     (fold (\<lambda>hook. hook) (shared_before rq @ req_beforeRequest rq) r,
      w\<lparr>trace := trace w @ before_events rq\<rparr>)
   \<and> doAfterHooks rq rsp w =
     (let hooks = shared_after rq @ req_afterHooks rq;
          k = length (takeWhile (\<lambda>hook. \<not> hook (RequestData.truncate rq) rsp) hooks)
      in (k < length hooks, w\<lparr>trace := trace w @ take (Suc k) (after_events rq)\<rparr>))
   \<and> (Request_Response E rq w = Inr (res, rq', w') \<longrightarrow>
        (\<exists>pre net. trace w' = trace w @ pre @ net
           @ take (Suc (length (takeWhile (\<lambda>hook. \<not> hook (RequestData.truncate rq') (fst res))
                                   (shared_after rq @ req_afterHooks rq))))
                  (after_events rq)
         \<and> (pre = [] \<or> pre = before_events rq) \<and> list_all is_net net))"
  using before_order[of rq r w] after_order[of rq rsp w] Response_shape[of E rq w res rq' w']
  by (simp add: before_events_def after_events_def)

text \<open>
  C5 at a sample: the header set by the service's hook is seen by the request's own hook,
  the second of the request's own post-response hooks is not invoked after the first has
  signalled stop, and a whole execution invokes the hooks in this order around its one
  network call.
\<close>

theorem hooks_shared_before_own_witness:
  "hr_Header (fst (doBeforeRequestHooks hooked_request wire0 w0)) ''X-Seen'' = Some [''shared'']
   \<and> trace (snd (doBeforeRequestHooks hooked_request wire0 w0)) = [Before Shared 0, Before Own 0]
   \<and> doAfterHooks hooked_request None w0 = (True, w0\<lparr>trace := [After Shared 0, After Own 0]\<rparr>)
   \<and> observe (Request_Response (net_up_after 0) hooked_request w0)
       = Inr ((Some fresh_response, None),
              [Before Shared 0, Before Own 0, Send 0, After Shared 0, After Own 0])
   \<and> (\<exists>res rq' w' pre net.
         Request_Response (net_up_after 0) hooked_request w0 = Inr (res, rq', w')
         \<and> trace w' = trace w0 @ pre @ net
             @ take (Suc (length (takeWhile (\<lambda>hook. \<not> hook (RequestData.truncate rq') (fst res))
                                     (shared_after hooked_request @ req_afterHooks hooked_request))))
                    (after_events hooked_request)
         \<and> (pre = [] \<or> pre = before_events hooked_request) \<and> list_all is_net net)"
proof -
  have o: "observe (Request_Response (net_up_after 0) hooked_request w0)
       = Inr ((Some fresh_response, None),
              [Before Shared 0, Before Own 0, Send 0, After Shared 0, After Own 0])"
    by (simp add: exec_defs build_defs sample_defs)
  then obtain res rq' w' where
    x: "Request_Response (net_up_after 0) hooked_request w0 = Inr (res, rq', w')"
    by (auto simp: observe_def split: sum.splits)
  note t = hooks_shared_before_own[of hooked_request wire0 w0 None "net_up_after 0" res rq' w']
  have f: "hr_Header (fst (doBeforeRequestHooks hooked_request wire0 w0)) ''X-Seen'' = Some [''shared'']
   \<and> trace (snd (doBeforeRequestHooks hooked_request wire0 w0)) = [Before Shared 0, Before Own 0]
   \<and> doAfterHooks hooked_request None w0 = (True, w0\<lparr>trace := [After Shared 0, After Own 0]\<rparr>)"
    using t by (simp add: build_defs sample_defs shared_before_def shared_after_def
        before_events_def after_events_def Let_def)
  from t x have "\<exists>pre net. trace w' = trace w0 @ pre @ net
             @ take (Suc (length (takeWhile (\<lambda>hook. \<not> hook (RequestData.truncate rq') (fst res))
                                     (shared_after hooked_request @ req_afterHooks hooked_request))))
                    (after_events hooked_request)
         \<and> (pre = [] \<or> pre = before_events hooked_request) \<and> list_all is_net net"
    by blast
  with x f o show ?thesis by blast
qed

section \<open>Retrying (claims C1 and C2)\<close>

text \<open>
  In the loop of \<^verbatim>\<open>do\<close>, a retry that fails ends the loop, whatever delays are left:
  one more network call is made and its failure is the result.
\<close>

lemma retry_loop_failed_retry:
  assumes "req_service rq = Some s" and "svc_client s = Some c"
    and "client_Do E (attempts (time_Sleep d w)) r = Inl e"
  shows "retry_loop E rq r (d # ds) res w
         = Inr ((None, Some e), log (Send (attempts w)) (time_Sleep d w))"
  using assms by (simp add: underscore_do_def Let_def attempts_def time_Sleep_def log_def)

lemma sleeps_append: "sleeps (xs @ ys) = sleeps xs @ sleeps ys"
  by (induction xs rule: sleeps.induct) simp_all

lemma quiet_hooks:
  "list_all (\<lambda>ev. \<not> is_net ev) evs \<Longrightarrow> sleeps evs = [] \<and> filter is_Send evs = []"
proof (induction evs)
  case Nil
  then show ?case by simp
next
  case (Cons ev evs)
  then show ?case by (cases ev) simp_all
qed

lemma before_events_quiet: "list_all (\<lambda>ev. \<not> is_net ev) (before_events rq)"
  by (simp add: before_events_def list_all_iff) auto

lemma after_events_quiet: "list_all (\<lambda>ev. \<not> is_net ev) (take n (after_events rq))"
proof -
  have "list_all (\<lambda>ev. \<not> is_net ev) (after_events rq)"
    by (simp add: after_events_def list_all_iff) auto
  then show ?thesis by (auto simp: list_all_iff dest: in_set_takeD)
qed

lemma Request_Request_startAt:
  "fst (Request_Request E (rq\<lparr>req_startAt := t\<rparr>)) = fst (Request_Request E rq)"
  by (simp add: Request_Request_def Let_def split: option.splits sum.splits)

text \<open>What a failing first attempt leads to: no retry without delays, one retry with.\<close>

lemma do_first_attempts_fail:
  assumes sv: "req_service rq = Some s" "svc_client s = Some c"
    and m: "materializes E rq"
    and f1: "\<forall>r. \<exists>e. client_Do E (attempts w) r = Inl e"
    and f2: "\<forall>r. \<exists>e. client_Do E (Suc (attempts w)) r = Inl e"
  shows "\<exists>e rq1 w1. Request_do E rq w = Inr ((None, Some e), rq1, w1)
           \<and> req_service rq1 = req_service rq \<and> req_afterHooks rq1 = req_afterHooks rq
           \<and> trace w1 = trace w @ before_events rq
               @ (case req_retries rq of [] \<Rightarrow> [Send (attempts w)]
                  | d # ds \<Rightarrow> [Send (attempts w), Sleep d, Send (Suc (attempts w))])"
proof -
  obtain x rq0 where rr: "Request_Request E rq = (x, rq0)" by (cases "Request_Request E rq")
  from m rr obtain r where x: "x = Inr r" by (auto simp: materializes_def split: sum.splits)
  note h0 = Request_Request_hooks[OF rr]
  have ret: "req_retries rq0 = req_retries rq"
    using rr by (auto simp: Request_Request_def Let_def split: option.splits sum.splits if_splits)
  obtain r' wB where b: "doBeforeRequestHooks rq0 r w = (r', wB)"
    by (cases "doBeforeRequestHooks rq0 r w")
  have "wB = snd (doBeforeRequestHooks rq0 r w)" by (simp add: b)
  then have "trace wB = trace w @ before_events rq0"
    by (simp add: before_order before_events_def)
  moreover have "before_events rq0 = before_events rq"
    using events_cong[of rq0 rq] h0 by simp
  ultimately have tB: "trace wB = trace w @ before_events rq" by simp
  have aB: "attempts wB = attempts w"
    using tB quiet_hooks[OF before_events_quiet[of rq]] by (simp add: attempts_def)
  define rq2 where "rq2 = rq0\<lparr>req_req := Some r', req_startAt := now wB\<rparr>"
  have sv2: "req_service rq2 = Some s" using h0 sv by (simp add: rq2_def)
  from f1 aB obtain e1 where e1: "client_Do E (attempts wB) r' = Inl e1" by auto
  have d1: "underscore_do E rq2 r' wB = Inr ((None, Some e1), log (Send (attempts wB)) wB)"
    using sv2 sv(2) e1 by (simp add: underscore_do_def Let_def)
  show ?thesis
  proof (cases "req_retries rq")
    case Nil
    then have "Request_do E rq w = Inr ((None, Some e1), rq2, log (Send (attempts wB)) wB)"
      using rr x b d1 ret by (simp add: Request_do_def Let_def rq2_def)
    then show ?thesis using Nil tB aB h0 by (simp add: rq2_def log_def)
  next
    case (Cons d ds)
    let ?w2 = "log (Send (attempts wB)) wB"
    have "attempts (time_Sleep d ?w2) = Suc (attempts w)"
      using aB by (simp add: attempts_def log_def time_Sleep_def)
    with f2 obtain e2 where e2: "client_Do E (attempts (time_Sleep d ?w2)) r' = Inl e2" by auto
    have l: "retry_loop E rq2 r' (d # ds) (None, Some e1) ?w2
             = Inr ((None, Some e2), log (Send (attempts ?w2)) (time_Sleep d ?w2))"
      using retry_loop_failed_retry[OF sv2 sv(2) e2] .
    have "Request_do E rq w = Inr ((None, Some e2), rq2, log (Send (attempts ?w2)) (time_Sleep d ?w2))"
      using rr x b d1 ret Cons l by (simp add: Request_do_def Let_def rq2_def)
    moreover have "attempts ?w2 = Suc (attempts w)"
      using aB by (simp add: attempts_def log_def)
    ultimately show ?thesis using Cons tB aB h0
      by (simp add: rq2_def log_def time_Sleep_def)
  qed
qed

lemma Response_first_attempts_fail:
  assumes sv: "req_service rq = Some s" "svc_client s = Some c"
    and m: "materializes E rq"
    and f1: "\<forall>r. \<exists>e. client_Do E (attempts w) r = Inl e"
    and f2: "\<forall>r. \<exists>e. client_Do E (Suc (attempts w)) r = Inl e"
  shows "\<exists>e rq' w'. Request_Response E rq w = Inr ((None, Some e), rq', w')
          \<and> attempts w' = attempts w + min 2 (Suc (length (req_retries rq)))
          \<and> sleeps (trace w') = sleeps (trace w) @ take 1 (req_retries rq)"
proof -
  let ?rq = "rq\<lparr>req_startAt := now w\<rparr>"
  have m': "materializes E ?rq" using m by (simp add: materializes_def Request_Request_startAt)
  have sv': "req_service ?rq = Some s" using sv by simp
  from do_first_attempts_fail[OF sv' sv(2) m' f1 f2]
  obtain e rq1 w1 where d: "Request_do E ?rq w = Inr ((None, Some e), rq1, w1)"
    and t1: "trace w1 = trace w @ before_events ?rq
               @ (case req_retries rq of [] \<Rightarrow> [Send (attempts w)]
                  | d # ds \<Rightarrow> [Send (attempts w), Sleep d, Send (Suc (attempts w))])"
    by auto
  define rq' where "rq' = rq1\<lparr>req_endAt := now w1\<rparr>"
  define w' where "w' = snd (doAfterHooks rq' None w1)"
  have r: "Request_Response E rq w = Inr ((None, Some e), rq', w')"
    using d by (simp add: Request_Response_def Let_def rq'_def w'_def split: prod.splits)
  obtain n where t': "trace w' = trace w1 @ take n (after_events rq')"
    unfolding w'_def by (simp add: after_order Let_def after_events_def)
  note q1 = quiet_hooks[OF before_events_quiet[of ?rq]]
  note q2 = quiet_hooks[OF after_events_quiet[of n rq']]
  have "attempts w' = attempts w + min 2 (Suc (length (req_retries rq)))"
    using t' t1 q1 q2 by (simp add: attempts_def split: list.splits)
  moreover have "sleeps (trace w') = sleeps (trace w) @ take 1 (req_retries rq)"
    using t' t1 q1 q2 by (simp add: sleeps_append split: list.splits)
  ultimately show ?thesis using r by blast
qed


text \<open>
  With a transport that fails on every attempt, an execution makes one network call when
  no delay is configured and two otherwise, and sleeps at most the first delay.
\<close>

lemma always_failing_general:
  assumes "req_service rq = Some s" and "svc_client s = Some c"
    and "materializes E rq"
    and "\<forall>k r. \<exists>e. client_Do E k r = Inl e"
  shows "\<exists>e rq' w'. Request_Response E rq w = Inr ((None, Some e), rq', w')
          \<and> attempts w' = attempts w + min 2 (Suc (length (req_retries rq)))
          \<and> sleeps (trace w') = sleeps (trace w) @ take 1 (req_retries rq)"
  using Response_first_attempts_fail[OF assms(1-3), of w] assms(4) by blast

text \<open>
  With two or more delays and a transport that fails on as many attempts as there are
  delays and succeeds from then on, an execution returns a failure after two network calls
  and one sleep.
\<close>

lemma late_success_general:
  assumes "req_service rq = Some s" and "svc_client s = Some c"
    and "materializes E rq"
    and "2 \<le> length (req_retries rq)"
    and "\<forall>k r. k < attempts w + length (req_retries rq) \<longrightarrow> (\<exists>e. client_Do E k r = Inl e)"
    and "\<forall>k r. attempts w + length (req_retries rq) \<le> k \<longrightarrow> (\<exists>p. client_Do E k r = Inr p)"
  shows "\<exists>e rq' w'. Request_Response E rq w = Inr ((None, Some e), rq', w')
          \<and> attempts w' = attempts w + 2
          \<and> sleeps (trace w') = sleeps (trace w) @ take 1 (req_retries rq)"
proof -
  have "attempts w < attempts w + length (req_retries rq)"
    and "Suc (attempts w) < attempts w + length (req_retries rq)"
    using assms(4) by linarith+
  then have f1: "\<forall>r. \<exists>e. client_Do E (attempts w) r = Inl e"
    and f2: "\<forall>r. \<exists>e. client_Do E (Suc (attempts w)) r = Inl e"
    using assms(5) by blast+
  show ?thesis
    using Response_first_attempts_fail[OF assms(1-3) f1 f2] assms(4) by (simp add: min_def)
qed

text \<open>
  C1. The claim: with \<open>N\<close> retry delays and a transport that fails on every attempt, the
  request is attempted \<open>N + 1\<close> times, each delay slept before its retry, and the failure
  of the last attempt is returned. The code gives up after the first retry: with the two
  delays 1 and 2 and a network that refuses every call, the execution makes two network
  calls, not three, sleeps only the first delay, and returns the failure of the second
  call.
\<close>

theorem always_failing_transport_two_attempts:
  "observe (Request_Response net_down (RetryDelay [1, 2] (Get ''/a'' (NewService None))) w0)
   = Inr ((None, Some ''connection refused''), [Send 0, Sleep 1, Send 1])"
  by (simp add: exec_defs build_defs sample_defs)

text \<open>
  C2. The claim: with \<open>N\<close> retry delays and a transport that fails on exactly the first
  \<open>N\<close> attempts, the execution returns the success of attempt \<open>N + 1\<close> after \<open>N\<close> retries
  and \<open>N\<close> sleeps. With the two delays 1 and 2 and a network that refuses the first two calls
  and would answer the third, the code returns the failure of the second call; the third
  call is never made.
\<close>

theorem late_success_never_reached:
  "observe (Request_Response (net_up_after 2) (RetryDelay [1, 2] (Get ''/a'' (NewService None))) w0)
   = Inr ((None, Some ''connection refused''), [Send 0, Sleep 1, Send 1])"
  by (simp add: exec_defs build_defs sample_defs)

section \<open>Materialization failure (claim C3)\<close>

lemma after_only:
  "\<exists>evs. trace (snd (doAfterHooks rq rsp w)) = trace w @ evs \<and> list_all is_After evs"
proof -
  let ?all = "map (After Shared) [0..<length (shared_after rq)]
              @ map (After Own) [0..<length (req_afterHooks rq)]"
  have a: "list_all is_After ?all"
    by (auto simp: list_all_iff)
  have t: "list_all is_After (take n ?all)" for n
    using a by (auto simp: list_all_iff dest: in_set_takeD)
  obtain n where "trace (snd (doAfterHooks rq rsp w)) = trace w @ take n ?all"
    by (simp add: after_order Let_def)
  with t show ?thesis by blast
qed

lemma no_Send_in_After: "list_all is_After evs \<Longrightarrow> filter is_Send evs = []"
  by (induction evs) (auto elim: is_After.elims)

lemma attempts_append:
  "trace w' = trace w @ evs \<Longrightarrow> list_all is_After evs \<Longrightarrow> attempts w' = attempts w"
  by (simp add: attempts_def no_Send_in_After)

text \<open>
  C3 as stated fails. The claim: when the wire request cannot be built, no pre-send hook and
  no post-response hook is invoked. \<^verbatim>\<open>Response\<close> runs the post-response hooks after
  \<^verbatim>\<open>do\<close> whatever \<^verbatim>\<open>do\<close> returned: for the sample request, whose wire request is
  rejected, the service's post-response hook and the first of the request's own are
  invoked.
\<close>

theorem materialization_failure_runs_after_hooks:
  "observe (Request_Response no_wire hooked_request w0)
   = Inr ((None, Some ''net/http: invalid method''), [After Shared 0, After Own 0])"
  by (simp add: exec_defs build_defs sample_defs)

text \<open>
  C3 amended. When the wire request cannot be built, the execution returns that error with
  no response, makes no network call, never sleeps and invokes no pre-send hook: all that
  happens outside is the run of the post-response hooks, which are handed a nil response.
\<close>

theorem materialization_failure_sends_nothing:
  assumes "req_req rq = None"
    and "http_NewRequest E (if req_method rq = [] then ''GET'' else req_method rq) (req_uri rq)
         = Inl e"
  shows "\<exists>rq' w'. Request_Response E rq w = Inr ((None, Some e), rq', w')
           \<and> w' = snd (doAfterHooks rq' None w)
           \<and> attempts w' = attempts w
           \<and> (\<exists>evs. trace w' = trace w @ evs \<and> list_all is_After evs)"
proof -
  define rq1 where "rq1 = (if req_method rq = [] then rq\<lparr>req_startAt := now w, req_method := ''GET''\<rparr>
                           else rq\<lparr>req_startAt := now w\<rparr>)"
  define rq' where "rq' = rq1\<lparr>req_endAt := now w\<rparr>"
  have d: "Request_do E (rq\<lparr>req_startAt := now w\<rparr>) w = Inr ((None, Some e), rq1, w)"
    using assms by (auto simp: Request_do_def Request_Request_def rq1_def Let_def)
  have r: "Request_Response E rq w = Inr ((None, Some e), rq', snd (doAfterHooks rq' None w))"
    by (simp add: Request_Response_def d rq'_def Let_def split: prod.splits)
  obtain evs where evs: "trace (snd (doAfterHooks rq' None w)) = trace w @ evs" "list_all is_After evs"
    using after_only by blast
  show ?thesis using r evs attempts_append[OF evs] by blast
qed

theorem materialization_failure_sends_nothing_witness:
  "req_req hooked_request = None
   \<and> http_NewRequest no_wire
        (if req_method hooked_request = [] then ''GET'' else req_method hooked_request)
        (req_uri hooked_request) = Inl ''net/http: invalid method''
   \<and> (\<exists>rq' w'. Request_Response no_wire hooked_request w0
                  = Inr ((None, Some ''net/http: invalid method''), rq', w')
           \<and> w' = snd (doAfterHooks rq' None w0)
           \<and> attempts w' = attempts w0
           \<and> (\<exists>evs. trace w' = trace w0 @ evs \<and> list_all is_After evs))"
proof -
  have a: "req_req hooked_request = None"
    by (simp add: build_defs sample_defs)
  have b: "http_NewRequest no_wire
        (if req_method hooked_request = [] then ''GET'' else req_method hooked_request)
        (req_uri hooked_request) = Inl ''net/http: invalid method''"
    by (simp add: sample_defs)
  show ?thesis using a b materialization_failure_sends_nothing[OF a b, of w0] by blast
qed

section \<open>Reading the body twice (claim C4)\<close>

lemma Bytes_keeps_cache:
  "rsp_body (snd (Bytes rsp)) = rsp_body rsp \<and> rsp_err (snd (Bytes rsp)) = rsp_err rsp"
  by (simp add: Bytes_def Let_def split: prod.splits)

text \<open>
  C4. The claim: the first read of the body caches the bytes or the error, and every later
  read answers from the cache, so that the stream is read at most once. \<^verbatim>\<open>Bytes\<close> never
  stores what it read: on a fresh response whose stream holds \<open>hi\<close>, the first call
  returns \<open>hi\<close>, the second call reads the stream again, which is closed by then, and
  returns an error and no bytes; the stream has been read twice.
\<close>

theorem Bytes_reads_stream_twice:
  "(let (first, rsp1) = Bytes fresh_response; (second, rsp2) = Bytes rsp1
    in first = (Some ''hi'', None)
     \<and> second = (Some [], Some ''http: read on closed response body'')
     \<and> bs_reads (hp_Body (rsp_rsp rsp2)) = 2)"
  by (simp add: Bytes_def ioutil_ReadAll_def Body_Close_def sample_defs)

text \<open>
  C4 at the sample, call by call: nothing is cached in the fresh response, so the first call
  reads the stream; nothing is cached after it either, and the second call answers
  differently.
\<close>

theorem Bytes_reads_stream_twice_witness:
  "rsp_body fresh_response = None \<and> rsp_err fresh_response = None
   \<and> fst (Bytes fresh_response) = (Some ''hi'', None)
   \<and> rsp_body (snd (Bytes fresh_response)) = None
   \<and> rsp_err (snd (Bytes fresh_response)) = None
   \<and> fst (Bytes (snd (Bytes fresh_response)))
       = (Some [], Some ''http: read on closed response body'')
   \<and> bs_reads (hp_Body (rsp_rsp (snd (Bytes (snd (Bytes fresh_response)))))) = 2"
  using Bytes_reads_stream_twice Bytes_keeps_cache[of fresh_response]
  by (simp add: split_def Let_def fresh_response_def)

section \<open>Paired arguments (claim C9)\<close>

lemma store_pairs_eq: "store_pairs xs m = m ++ map_of (rev (pairs xs))"
proof (induction xs arbitrary: m rule: pairs.induct)
  case (1 k v rest)
  have "store_pairs (k # v # rest) m = store_pairs rest (m(k \<mapsto> v))"
    by (simp only: store_pairs.simps)
  also have "\<dots> = m(k \<mapsto> v) ++ map_of (rev (pairs rest))"
    by (rule 1)
  also have "\<dots> = m ++ map_of (rev (pairs (k # v # rest)))"
    by (rule ext) (simp add: map_add_def split: option.splits)
  finally show ?case .
qed simp_all

lemma add_pairs_eq: "add_pairs xs m = added_values xs m"
proof (induction xs arbitrary: m rule: pairs.induct)
  case (1 k v rest)
  have "added_values rest (Values_Add k v m) = added_values (k # v # rest) m"
    by (rule ext) (simp add: added_values_def Values_Add_def values_at_def Let_def)
  then show ?case by (simp add: 1)
qed (simp_all add: added_values_def)

text \<open>
  C9. \<^verbatim>\<open>Service.Paths\<close> and \<^verbatim>\<open>Request.Params\<close> panic on an odd number of arguments and
  on nothing else. On an even number, \<^verbatim>\<open>Paths\<close> stores every pair in the map of paths,
  in order, so that of two pairs with the same key the later one stays; \<^verbatim>\<open>Params\<close> adds
  the value of every pair, in order, to the values held under its key.
\<close>

theorem paired_arguments:
  "Paths xs s =
     (if odd (length xs) then Inl (PanicMsg ''method and path are not pairs'')
      else Inr (s\<lparr>svc_paths := Some ((case svc_paths s of None \<Rightarrow> Map.empty | Some m \<Rightarrow> m)
                                      ++ map_of (rev (pairs xs)))\<rparr>))
   \<and> Params xs rq =
     (if odd (length xs) then Inl (PanicMsg ''params error'')
      else Inr (rq\<lparr>req_params := Some (added_values xs
                                         (case req_params rq of None \<Rightarrow> Map.empty | Some m \<Rightarrow> m))\<rparr>))"
  by (simp add: Paths_def Params_def store_pairs_eq add_pairs_eq Let_def odd_iff_mod_2_eq_one)

text \<open>
  C9 at samples: three arguments panic; of two pairs with the same key, the map of paths
  keeps the later value and the parameters hold both values in order.
\<close>

theorem paired_arguments_witness:
  "Paths [''k'', ''1'', ''k''] (NewService None) = Inl (PanicMsg ''method and path are not pairs'')
   \<and> Params [''k'', ''1'', ''k''] (NewRequest ''GET'' ''/a'') = Inl (PanicMsg ''params error'')
   \<and> (\<exists>s'. Paths [''k'', ''1'', ''k'', ''2''] (NewService None) = Inr s'
            \<and> map_option (\<lambda>m. m ''k'') (svc_paths s') = Some (Some ''2''))
   \<and> (\<exists>rq'. Params [''k'', ''1'', ''k'', ''2''] (NewRequest ''GET'' ''/a'') = Inr rq'
            \<and> map_option (\<lambda>m. m ''k'') (req_params rq') = Some (Some [''1'', ''2'']))"
  using paired_arguments[where xs = "[''k'', ''1'', ''k'']" and s = "NewService None"
                           and rq = "NewRequest ''GET'' ''/a''"]
    paired_arguments[where xs = "[''k'', ''1'', ''k'', ''2'']" and s = "NewService None"
                       and rq = "NewRequest ''GET'' ''/a''"]
  by (simp add: build_defs added_values_def values_at_def Let_def)

section \<open>A request without a service (claim C10)\<close>

text \<open>
  C10. A request made by \<^verbatim>\<open>NewRequest\<close> has no service. When its method and URI are
  accepted, executing it panics with a nil dereference in \<^verbatim>\<open>_do\<close> instead of returning
  an envelope, although the accessor \<^verbatim>\<open>client\<close> would have supplied a client for it.
\<close>

theorem standalone_request_panics:
  assumes "http_NewRequest E (if method = [] then ''GET'' else method) uri = Inr r"
  shows "Request_Response E (NewRequest method uri) w = Inl NilDeref
       \<and> client (NewRequest method uri) = Some \<lparr>cl_Timeout = 20 * second\<rparr>"
  using assms by (auto simp: exec_defs NewRequest_def client_def Let_def)

theorem standalone_request_panics_witness:
  "http_NewRequest (net_up_after 0) (if ''GET'' = [] then ''GET'' else ''GET'') ''/a''
       = Inr \<lparr>hr_Method = ''GET'', hr_URL = ''/a'', hr_Header = Map.empty\<rparr>
   \<and> Request_Response (net_up_after 0) (NewRequest ''GET'' ''/a'') w0 = Inl NilDeref
   \<and> client (NewRequest ''GET'' ''/a'') = Some \<lparr>cl_Timeout = 20 * second\<rparr>"
proof -
  have a: "http_NewRequest (net_up_after 0) (if ''GET'' = [] then ''GET'' else ''GET'') ''/a''
       = Inr \<lparr>hr_Method = ''GET'', hr_URL = ''/a'', hr_Header = Map.empty\<rparr>"
    by (simp add: sample_defs)
  show ?thesis using a standalone_request_panics[OF a, of w0] by simp
qed

section \<open>The sequential stream (claims C6 and C7)\<close>

subsection \<open>The invariant holds in every state a program reaches\<close>


lemma pc_ok_cancel [simp]: "pc_ok (s\<lparr>sy_ctxs := (sy_ctxs s)[c := b]\<rparr>) pc = pc_ok s pc"
  by (cases pc) (simp_all add: tokens_ok_def)

lemma inv_boot: "stream_inv (boot (NewGroup rqs) w)"
  by (simp add: stream_inv_def boot_def NewGroup_def)

lemma inv_finish: "open_chan s (g_sync (sy_group s)) \<Longrightarrow> sy_panic s = None \<Longrightarrow> stream_inv (finish_sync s)"
  by (auto simp: stream_inv_def open_chan_def finish_sync_def close_chan_def Let_def split: option.splits)

lemma inv_iteration:
  assumes "stream_inv s" "sy_producer s = Some (AtRange i)" "sy_panic s = None"
  shows "stream_inv (sync_iteration E i s)"
proof (cases "i < length (g_requests (sy_group s))")
  case False
  have "open_chan s (g_sync (sy_group s))"
    using assms by (simp add: stream_inv_def)
  with False assms(3) show ?thesis
    by (simp add: sync_iteration_def inv_finish)
next
  case True
  show ?thesis
  proof (cases "Request_Response E (g_requests (sy_group s) ! i) (sy_world s)")
    case (Inl p)
    with True assms show ?thesis
      by (simp add: sync_iteration_def stream_inv_def open_chan_def split: option.splits)
  next
    case (Inr x)
    obtain rsp err rq' w' where x: "x = ((rsp, err), rq', w')" by (cases x) auto
    with Inr True assms show ?thesis
      by (simp add: sync_iteration_def stream_inv_def open_chan_def WithCancel_def tokens_ok_def
          split: option.splits)
  qed
qed

lemma inv_exec: "stream_inv s \<Longrightarrow> stream_inv (exec E a s)"
proof (cases "sy_panic s")
  case (Some p)
  then show "stream_inv s \<Longrightarrow> stream_inv (exec E a s)" by (simp add: exec_def)
next
  case None
  assume inv: "stream_inv s"
  show "stream_inv (exec E a s)"
  proof (cases a)
    case CallSync
    with None inv show ?thesis
      by (auto simp: exec_def stream_inv_def Sync_def make_chan_def open_chan_def nth_append
          split: option.splits sync_pc.splits)
  next
    case CallContinue
    with None inv show ?thesis
      by (auto simp: exec_def stream_inv_def Continue_def cancel_def open_chan_def tokens_ok_def
          split: option.splits sync_pc.splits)
  next
    case CallStop
    with None inv show ?thesis
      by (auto simp: exec_def stream_inv_def Stop_def cancel_def open_chan_def tokens_ok_def
          split: option.splits sync_pc.splits)
  next
    case (Receive c)
    with None inv show ?thesis
      by (auto simp: exec_def stream_inv_def open_chan_def tokens_ok_def
          split: option.splits sync_pc.splits if_splits)
  next
    case Run
    show ?thesis
    proof (cases "sy_producer s")
      case None
      then show ?thesis using inv Run \<open>sy_panic s = None\<close> by (simp add: exec_def)
    next
      case (Some pc)
      then show ?thesis using inv Run \<open>sy_panic s = None\<close> inv_iteration[of s _ E]
        by (cases pc) (simp_all add: exec_def)
    qed
  next
    case WakeNext
    with None inv show ?thesis
      by (auto simp: exec_def stream_inv_def open_chan_def
          split: option.splits sync_pc.splits if_splits)
  next
    case WakeStop
    show ?thesis
    proof (cases "sy_producer s")
      case None
      then show ?thesis using inv WakeStop \<open>sy_panic s = None\<close> by (simp add: exec_def)
    next
      case (Some pc)
      have "open_chan s (g_sync (sy_group s))"
        using inv Some by (simp add: stream_inv_def)
      then have "stream_inv (finish_sync s)"
        using \<open>sy_panic s = None\<close> by (rule inv_finish)
      then show ?thesis using Some inv WakeStop \<open>sy_panic s = None\<close>
        by (cases pc) (simp_all add: exec_def)
    qed
  qed
qed

lemma inv_run: "stream_inv s \<Longrightarrow> stream_inv (run E as s)"
  unfolding run_def by (induction as arbitrary: s) (simp_all add: inv_exec)

lemma inv_reachable: "stream_inv (run E pre (boot (NewGroup rqs) w))"
  by (simp add: inv_run inv_boot)

subsection \<open>The goroutine blocked in its select\<close>










text \<open>
  The two contexts of an iteration are made by that iteration and are not done when the
  goroutine reaches its send: only a call of \<^verbatim>\<open>Continue\<close> or \<^verbatim>\<open>Stop\<close> after that can
  make them done.
\<close>

lemma iteration_contexts_fresh:
  assumes "sy_producer s = Some (AtRange i)"
    and "sy_producer (sync_iteration E i s) = Some (AtSend i' e n st)"
  shows "\<not> is_done (sync_iteration E i s) n \<and> \<not> is_done (sync_iteration E i s) st"
proof (cases "i < length (g_requests (sy_group s))")
  case False
  with assms show ?thesis
    by (simp add: sync_iteration_def finish_sync_def Let_def)
next
  case True
  show ?thesis
  proof (cases "Request_Response E (g_requests (sy_group s) ! i) (sy_world s)")
    case (Inl p)
    with True assms show ?thesis by (simp add: sync_iteration_def)
  next
    case (Inr x)
    obtain rsp err rq' w' where x: "x = ((rsp, err), rq', w')" by (cases x) auto
    with Inr True assms show ?thesis
      by (auto simp: sync_iteration_def WithCancel_def is_done_def nth_append)
  qed
qed

lemma paused_facts:
  "sy_producer paused = Some (AtSelect 0 0 1)" "\<not> is_done paused 0" "\<not> is_done paused 1"
  "attempts (sy_world paused) = 1" "length (sy_received paused) = 1"
  "g_sync (sy_group paused) = Some 0"
  by (simp_all add: sys_defs group_defs exec_defs build_defs sample_defs)

lemma fanned_facts:
  "g_async (sy_group fanned) = Some 0" "open_chan fanned (Some 0)"
  "length (sy_chans fanned) = 1" "length (g_requests (sy_group fanned)) = 3"
  by (simp_all add: sys_defs group_defs open_chan_def)

lemma paused_open: "open_chan paused (Some 0)" "length (sy_chans paused) = 1"
  by (simp_all add: sys_defs group_defs exec_defs build_defs sample_defs open_chan_def)



text \<open>
  C7. A call of \<^verbatim>\<open>Sync\<close> (of \<^verbatim>\<open>Async\<close>) while \<^verbatim>\<open>g.sync\<close> (\<^verbatim>\<open>g.async\<close>) is set
  returns that channel and changes nothing: no channel is made and no goroutine is started.
  In every state a program reaches, \<^verbatim>\<open>g.sync\<close> is set exactly while the goroutine of
  \<^verbatim>\<open>Sync\<close> runs. When the goroutine ends, the channel is closed and the reference is
  cleared, and the next call makes a new channel, different from the old one, sets the
  reference to it and starts a goroutine.
\<close>

theorem active_stream_is_reused:
  "(g_sync (sy_group s) = Some c \<longrightarrow> Sync s = (c, s))
   \<and> (g_async (sy_group s) = Some c \<longrightarrow> Async s = (c, s))
   \<and> (let r = run E pre (boot (NewGroup rqs) w)
       in (sy_producer r = None) = (g_sync (sy_group r) = None))
   \<and> (g_sync (sy_group s) = Some c \<and> open_chan s (Some c) \<longrightarrow>
        (let t = finish_sync s; (c', t') = Sync t
         in g_sync (sy_group t) = None \<and> ch_closed (sy_chans t ! c)
            \<and> c' = length (sy_chans s) \<and> c' \<noteq> c
            \<and> g_sync (sy_group t') = Some c' \<and> sy_producer t' = Some (AtRange 0)
            \<and> sy_chans t' ! c' = \<lparr>ch_cap = 0, ch_buf = [], ch_closed = False\<rparr>))
   \<and> (g_async (sy_group s) = Some c \<and> open_chan s (Some c) \<longrightarrow>
        (let t = finish_async s; (c', t') = Async t
         in g_async (sy_group t) = None \<and> ch_closed (sy_chans t ! c)
            \<and> c' = length (sy_chans s) \<and> c' \<noteq> c
            \<and> g_async (sy_group t') = Some c' \<and> sy_collector t'
            \<and> sy_chans t' ! c' = \<lparr>ch_cap = length (g_requests (sy_group s)), ch_buf = [],
                                    ch_closed = False\<rparr>))"
proof -
  have a: "g_sync (sy_group s) = Some c \<longrightarrow> Sync s = (c, s)"
    by (simp add: Sync_def)
  have b: "g_async (sy_group s) = Some c \<longrightarrow> Async s = (c, s)"
    by (simp add: Async_def)
  have "stream_inv (run E pre (boot (NewGroup rqs) w))"
    by (rule inv_reachable)
  then have r: "let r = run E pre (boot (NewGroup rqs) w)
       in (sy_producer r = None) = (g_sync (sy_group r) = None)"
    by (auto simp: stream_inv_def open_chan_def Let_def split: option.splits)
  have d: "g_sync (sy_group s) = Some c \<and> open_chan s (Some c) \<longrightarrow>
        (let t = finish_sync s; (c', t') = Sync t
         in g_sync (sy_group t) = None \<and> ch_closed (sy_chans t ! c)
            \<and> c' = length (sy_chans s) \<and> c' \<noteq> c
            \<and> g_sync (sy_group t') = Some c' \<and> sy_producer t' = Some (AtRange 0)
            \<and> sy_chans t' ! c' = \<lparr>ch_cap = 0, ch_buf = [], ch_closed = False\<rparr>)"
    by (auto simp: open_chan_def finish_sync_def close_chan_def Sync_def make_chan_def Let_def
        nth_append)
  have e: "g_async (sy_group s) = Some c \<and> open_chan s (Some c) \<longrightarrow>
        (let t = finish_async s; (c', t') = Async t
         in g_async (sy_group t) = None \<and> ch_closed (sy_chans t ! c)
            \<and> c' = length (sy_chans s) \<and> c' \<noteq> c
            \<and> g_async (sy_group t') = Some c' \<and> sy_collector t'
            \<and> sy_chans t' ! c' = \<lparr>ch_cap = length (g_requests (sy_group s)), ch_buf = [],
                                    ch_closed = False\<rparr>)"
    by (auto simp: open_chan_def finish_async_def close_chan_def Async_def make_chan_def Let_def
        nth_append)
  from a b r d e show ?thesis by blast
qed

text \<open>
  C7 at samples: the paused program for the sequential mode, the program after a call of
  \<^verbatim>\<open>Async\<close> for the parallel mode.
\<close>

theorem active_stream_is_reused_witness:
  "g_sync (sy_group paused) = Some 0 \<and> open_chan paused (Some 0) \<and> Sync paused = (0, paused)
   \<and> g_sync (sy_group (finish_sync paused)) = None
   \<and> fst (Sync (finish_sync paused)) = 1
   \<and> g_async (sy_group fanned) = Some 0 \<and> open_chan fanned (Some 0) \<and> Async fanned = (0, fanned)
   \<and> g_async (sy_group (finish_async fanned)) = None
   \<and> fst (Async (finish_async fanned)) = 1"
  using active_stream_is_reused[of paused 0 "net_up_after 0" "[]" "[]" w0] active_stream_is_reused[of fanned 0 "net_up_after 0" "[]" "[]" w0]
    paused_facts(6) paused_open fanned_facts
  by (simp add: Let_def split: prod.splits)

end
